theory Spec2Isabelle
  imports
    Complex_Main
    "HOL-Library.Log_Nat"
    "HOL-Library.Product_Lexorder"
    "HOL-Library.List_Lexorder"
    "HOL-Library.Char_ord"
begin

section \<open>JavaScript numbers\<close>

text \<open>
  A JavaScript number is an IEEE 754 double: \<open>Num s m e\<close> is the finite value
  \<open>m * 2^e\<close>, negated when the sign \<open>s\<close> is set (so \<open>Num True 0 0\<close> is \<open>-0\<close>),
  \<open>Infinity s\<close> is the infinity of sign \<open>s\<close>, and \<open>NaN\<close> is not-a-number. The doubles
  are the triples with \<open>m < 2^53\<close>, \<open>-1074 \<le> e\<close> and \<open>m * 2^e < 2^1024\<close>; one value may be
  written by several triples, and the code below only ever compares a number with zero.
\<close>

datatype jsnum = Num bool nat int | Infinity bool | NaN

text \<open>A natural number as a number; exact below \<open>2^53\<close>.\<close>

definition of_count :: "nat \<Rightarrow> jsnum" where
  "of_count n = Num False n 0"

text \<open>A finite number is zero (\<open>0\<close> or \<open>-0\<close>) when its mantissa is.\<close>

fun is_zero :: "jsnum \<Rightarrow> bool" where
  "is_zero (Num s m e) = (m = 0)"
| "is_zero n = False"

text \<open>\<open>rne a b\<close> is \<open>a / b\<close> rounded to the nearest natural number, ties to even.\<close>

definition rne :: "nat \<Rightarrow> nat \<Rightarrow> nat" where
  "rne a b =
     (let q = a div b; r = a mod b
      in if 2 * r < b then q
         else if b < 2 * r then q + 1
         else if even q then q else q + 1)"

text \<open>
  \<open>to_double s a b\<close> is the double nearest to the exact quotient \<open>a / b\<close> (for \<open>b > 0\<close>)
  with sign \<open>s\<close>, ties to even. The exponent \<open>e\<close> with \<open>2^e \<le> a / b < 2^(e + 1)\<close> is
  found from the bit lengths of \<open>a\<close> and \<open>b\<close>; the quotient is rounded to a multiple of
  \<open>2^(e - 52)\<close> (53 significant bits), or of \<open>2^-1074\<close> in the subnormal range, where it
  may round to zero; a rounded value of \<open>2^1024\<close> or more overflows to infinity.
\<close>

definition to_double :: "bool \<Rightarrow> nat \<Rightarrow> nat \<Rightarrow> jsnum" where
  "to_double sg a b =
     (if a = 0 then Num sg 0 0
      else
        let k = int (floorlog 2 a) - int (floorlog 2 b);
            e = (if b * 2 ^ nat k \<le> a * 2 ^ nat (- k) then k else k - 1);
            s = max (e - 52) (- 1074);
            m = rne (a * 2 ^ nat (- s)) (b * 2 ^ nat s)
        in if m = 0 then Num sg 0 0
           else if 2 ^ 1024 * 2 ^ nat (- s) \<le> m * 2 ^ nat s then Infinity sg
           else Num sg m s)"

text \<open>
  The operators \<^verbatim>\<open>/\<close> and \<^verbatim>\<open>*\<close>: the exact result, rounded once; the sign of the
  result is negative when exactly one operand is negative. A non-zero number divided
  by zero is an infinity, and \<open>0 / 0\<close>, \<open>Infinity / Infinity\<close> and \<open>0 * Infinity\<close> are
  \<open>NaN\<close>.
\<close>

fun js_div :: "jsnum \<Rightarrow> jsnum \<Rightarrow> jsnum" where
  "js_div NaN y = NaN"
| "js_div x NaN = NaN"
| "js_div (Infinity s1) (Infinity s2) = NaN"
| "js_div (Infinity s1) (Num s2 m2 e2) = Infinity (s1 \<noteq> s2)"
| "js_div (Num s1 m1 e1) (Infinity s2) = Num (s1 \<noteq> s2) 0 0"
| "js_div (Num s1 m1 e1) (Num s2 m2 e2) =
     (if m2 = 0 then (if m1 = 0 then NaN else Infinity (s1 \<noteq> s2))
      else to_double (s1 \<noteq> s2)
             (m1 * 2 ^ nat e1 * 2 ^ nat (- e2)) (m2 * 2 ^ nat e2 * 2 ^ nat (- e1)))"

fun js_mul :: "jsnum \<Rightarrow> jsnum \<Rightarrow> jsnum" where
  "js_mul NaN y = NaN"
| "js_mul x NaN = NaN"
| "js_mul (Infinity s1) (Infinity s2) = Infinity (s1 \<noteq> s2)"
| "js_mul (Infinity s1) (Num s2 m2 e2) = (if m2 = 0 then NaN else Infinity (s1 \<noteq> s2))"
| "js_mul (Num s1 m1 e1) (Infinity s2) = (if m1 = 0 then NaN else Infinity (s1 \<noteq> s2))"
| "js_mul (Num s1 m1 e1) (Num s2 m2 e2) =
     to_double (s1 \<noteq> s2) (m1 * m2 * 2 ^ nat (e1 + e2)) (2 ^ nat (- (e1 + e2)))"

text \<open>
  \<^verbatim>\<open>Math.round\<close>: the integer nearest to the argument, a tie going to the larger one,
  that is \<open>\<lfloor>x + 1/2\<rfloor>\<close> computed exactly; for a negative \<open>x = - v\<close> this is \<open>- \<lceil>v - 1/2\<rceil>\<close>,
  and \<open>-0\<close> when \<open>v \<le> 1/2\<close>. Infinities and \<open>NaN\<close> are returned as they are.
\<close>

fun Math_round :: "jsnum \<Rightarrow> jsnum" where
  "Math_round NaN = NaN"
| "Math_round (Infinity s) = Infinity s"
| "Math_round (Num False m e) =
     (if 0 \<le> e then Num False (m * 2 ^ nat e) 0
      else Num False ((2 * m + 2 ^ nat (- e)) div 2 ^ (nat (- e) + 1)) 0)"
| "Math_round (Num True m e) =
     (if 0 \<le> e then Num True (m * 2 ^ nat e) 0
      else Num True ((2 * m + 2 ^ nat (- e) - 1) div 2 ^ (nat (- e) + 1)) 0)"

section \<open>JavaScript values read from a JSON response\<close>

text \<open>
  A property of a parsed JSON object is absent (\<open>Undefined\<close>), \<open>null\<close>, a boolean, a
  number, or a string, array or object. \<open>Other n\<close> stands for a string, array or
  object whose conversion to a number is \<open>n\<close>: the code below reads a property only
  through the destructuring default, \<^verbatim>\<open>=== 0\<close> and the conversion to a number.
\<close>

datatype jsval = Undefined | Null | Boolean bool | Number jsnum | Other jsnum

text \<open>The conversion of an operand of \<^verbatim>\<open>/\<close> to a number.\<close>

fun ToNumber :: "jsval \<Rightarrow> jsnum" where
  "ToNumber Undefined = NaN"
| "ToNumber Null = Num False 0 0"
| "ToNumber (Boolean b) = (if b then Num False 1 0 else Num False 0 0)"
| "ToNumber (Number n) = n"
| "ToNumber (Other n) = n"

text \<open>
  A destructuring default (\<^verbatim>\<open>{ x = 0 }\<close>) replaces only \<^verbatim>\<open>undefined\<close>.
\<close>

definition with_default :: "jsval \<Rightarrow> jsval \<Rightarrow> jsval" where
  "with_default v d = (if v = Undefined then d else v)"

text \<open>
  \<^verbatim>\<open>v === 0\<close>: strict equality does not convert, so it holds only of a number that is
  \<open>0\<close> or \<open>-0\<close>.
\<close>

fun strict_equals_zero :: "jsval \<Rightarrow> bool" where
  "strict_equals_zero (Number n) = is_zero n"
| "strict_equals_zero v = False"

section \<open>Data model of the client (frontend/src/types/index.ts)\<close>

datatype SessionStatus = IDLE | INDEXING | READY | ERROR

text \<open>
  \<^verbatim>\<open>StatusResponse.progress\<close>. The interface declares every field optional and the four
  counters numbers; the object is parsed from the server's JSON without validation,
  so a counter holds whatever value the response carries.
\<close>

record Progress =
  step :: "string option"
  processed_files :: jsval
  total_files :: jsval
  processed_chunks :: jsval
  total_chunks :: jsval

text \<open>
  \<open>progress = None\<close> is a missing or otherwise falsy \<^verbatim>\<open>progress\<close> (\<^verbatim>\<open>undefined\<close>,
  \<^verbatim>\<open>null\<close>). A truthy \<^verbatim>\<open>progress\<close> that is not an object has none of the
  properties, and reads as a record whose counters are all \<open>Undefined\<close>.
\<close>

record StatusResponse =
  status :: SessionStatus
  message :: string
  progress :: "Progress option"

section \<open>IndexingStatus: getProgressValue\<close>

text \<open>
  \<^verbatim>\<open>
  const getProgressValue = () => {
    if (!status.progress) return 0;
    const { processed_files = 0, total_files = 0 } = status.progress;
    if (total_files === 0) return 0;
    return Math.round((processed_files / total_files) * 100);
  };
  \<close>
\<close>

definition getProgressValue :: "StatusResponse \<Rightarrow> jsnum" where
  "getProgressValue st =
     (case progress st of
        None \<Rightarrow> of_count 0
      | Some pr \<Rightarrow>
          let processed = with_default (processed_files pr) (Number (of_count 0));
              total = with_default (total_files pr) (Number (of_count 0))
          in if strict_equals_zero total then of_count 0
             else Math_round (js_mul (js_div (ToNumber processed) (ToNumber total)) (of_count 100)))"

section \<open>Retrieval Engine\<close>

text \<open>
  Modelled from the spec: the Retrieval Engine, the Session Manager's registry and the two
  capability interfaces it calls (Embedding Gateway, Vector Index) are server code,
  which is not among the sources of the client. \<open>retrieve\<close> follows the contract of
  the Retrieval Engine sentence by sentence: the session must exist and be \<open>ready\<close>,
  the question is embedded, the index is queried for nearest neighbours, results
  below the threshold are discarded, the rest is ordered by descending similarity
  (ties by file path, then \<open>line_start\<close>) and truncated to \<open>maxContextChunks\<close>.
  The two capabilities are parameters; either may fail with an upstream error.
\<close>

text \<open>The error taxonomy of the core.\<close>

datatype error = ValidationError | NotFound | NotReady | IngestionFailure | UpstreamFailure

record Chunk =
  file_path :: string
  line_start :: nat
  line_end :: nat
  snippet :: string

record Session =
  repo_locator :: string
  session_status :: SessionStatus
  error_message :: "string option"

text \<open>A retrieved chunk with its similarity score.\<close>

type_synonym scored = "Chunk \<times> rat"

text \<open>
  The sort key: descending similarity, then ascending file path, then ascending
  \<open>line_start\<close>; \<open>ranks_before\<close> is the same order written out as a relation.
\<close>

definition rank_key :: "scored \<Rightarrow> rat \<times> string \<times> nat" where
  "rank_key r = (- snd r, file_path (fst r), line_start (fst r))"

definition ranks_before :: "scored \<Rightarrow> scored \<Rightarrow> bool" where
  "ranks_before a b \<longleftrightarrow>
     snd b < snd a \<or>
     (snd a = snd b \<and>
        (file_path (fst a) < file_path (fst b) \<or>
         (file_path (fst a) = file_path (fst b) \<and> line_start (fst a) \<le> line_start (fst b))))"

definition retrieve ::
  "(string \<rightharpoonup> Session) \<Rightarrow> (string \<Rightarrow> error + 'v) \<Rightarrow> (string \<Rightarrow> 'v \<Rightarrow> error + scored list) \<Rightarrow>
   string \<Rightarrow> string \<Rightarrow> nat \<Rightarrow> rat \<Rightarrow> error + scored list" where
  "retrieve registry embedText queryIndex sessionId question maxContextChunks similarityThreshold =
     (case registry sessionId of
        None \<Rightarrow> Inl NotFound
      | Some sess \<Rightarrow>
          if session_status sess \<noteq> READY then Inl NotReady
          else
            (case embedText question of
               Inl e \<Rightarrow> Inl e
             | Inr v \<Rightarrow>
                 (case queryIndex sessionId v of
                    Inl e \<Rightarrow> Inl e
                  | Inr found \<Rightarrow>
                      Inr (take maxContextChunks
                             (sort_key rank_key
                                (filter (\<lambda>r. similarityThreshold \<le> snd r) found))))))"

section \<open>Double-precision rounding\<close>

text \<open>
  The error of one rounding: \<open>rne\<close> is within one half of the exact quotient, and for
  a quotient in the range of normal doubles \<open>to_double\<close> returns a finite number
  within a relative error of \<open>2^-53\<close>.
\<close>

lemma rne_error:
  assumes "0 < b"
  shows "\<bar>rat_of_nat (rne a b) - rat_of_nat a / rat_of_nat b\<bar> \<le> 1 / 2"
proof -
  define q where "q = a div b"
  define r where "r = a mod b"
  have a: "a = q * b + r" by (simp add: q_def r_def)
  have rb: "r < b" using assms by (simp add: r_def)
  have bpos: "0 < rat_of_nat b" using assms by simp
  have quot: "rat_of_nat a / rat_of_nat b = rat_of_nat q + rat_of_nat r / rat_of_nat b"
    using assms by (simp add: a field_simps)
  have frac0: "0 \<le> rat_of_nat r / rat_of_nat b" by simp
  have frac1: "rat_of_nat r / rat_of_nat b < 1" using rb bpos by simp
  consider (lo) "2 * r < b" | (hi) "b < 2 * r" | (tie) "2 * r = b" by linarith
  then show ?thesis
  proof cases
    case lo
    then have "rne a b = q" by (simp add: rne_def q_def r_def Let_def)
    moreover have "rat_of_nat r / rat_of_nat b \<le> 1 / 2"
    proof -
      have "rat_of_nat (2 * r) \<le> rat_of_nat b" using lo by (simp only: of_nat_le_iff)
      then show ?thesis using bpos by (simp add: field_simps)
    qed
    ultimately show ?thesis using quot frac0 by simp
  next
    case hi
    then have "rne a b = q + 1" by (simp add: rne_def q_def r_def Let_def)
    moreover have "1 / 2 \<le> rat_of_nat r / rat_of_nat b"
    proof -
      have "rat_of_nat b \<le> rat_of_nat (2 * r)" using hi by (simp only: of_nat_le_iff)
      then show ?thesis using bpos by (simp add: field_simps)
    qed
    ultimately show ?thesis using quot frac1 by simp
  next
    case tie
    then have "rne a b = q \<or> rne a b = q + 1" by (simp add: rne_def q_def r_def Let_def)
    moreover have "rat_of_nat r / rat_of_nat b = 1 / 2"
    proof -
      have "rat_of_nat b = rat_of_nat (2 * r)" using tie by simp
      then show ?thesis using bpos by (simp add: field_simps)
    qed
    ultimately show ?thesis using quot by auto
  qed
qed

lemma scaled_quotient:
  assumes "0 < b"
  shows "rat_of_nat (a * 2 ^ nat (- s)) / rat_of_nat (b * 2 ^ nat s)
         = rat_of_nat a / rat_of_nat b * 2 powi (- s)"
proof (cases "0 \<le> s")
  case True
  then have "\<exists>n. s = int n" by (intro exI[of _ "nat s"]) simp
  then obtain n where s: "s = int n" ..
  show ?thesis unfolding s by (simp add: power_int_minus field_simps)
next
  case False
  then have "\<exists>n. s = - int n" by (intro exI[of _ "nat (- s)"]) simp
  then obtain n where s: "s = - int n" ..
  show ?thesis unfolding s by simp
qed

lemma scaled_compare:
  assumes "0 < b"
  shows "b * 2 ^ nat k \<le> a * 2 ^ nat (- k) \<longleftrightarrow> (2::rat) powi k \<le> rat_of_nat a / rat_of_nat b"
proof -
  have pos: "0 < rat_of_nat (b * 2 ^ nat k)" using assms by simp
  have "b * 2 ^ nat k \<le> a * 2 ^ nat (- k)
        \<longleftrightarrow> rat_of_nat (b * 2 ^ nat k) \<le> rat_of_nat (a * 2 ^ nat (- k))"
    by (simp only: of_nat_le_iff)
  also have "\<dots> \<longleftrightarrow> 1 \<le> rat_of_nat (a * 2 ^ nat (- k)) / rat_of_nat (b * 2 ^ nat k)"
    using pos by (simp only: le_divide_eq_1_pos)
  also have "\<dots> \<longleftrightarrow> 1 \<le> rat_of_nat a / rat_of_nat b * 2 powi (- k)"
    by (simp only: scaled_quotient[OF assms])
  also have "\<dots> \<longleftrightarrow> (2::rat) powi k \<le> rat_of_nat a / rat_of_nat b"
  proof -
    have p: "0 < (2::rat) powi k" by simp
    have "rat_of_nat a / rat_of_nat b * 2 powi (- k) = (rat_of_nat a / rat_of_nat b) / 2 powi k"
      by (simp only: power_int_minus_divide times_divide_eq_right mult_1_right)
    then show ?thesis using p by (simp only: le_divide_eq_1_pos)
  qed
  finally show ?thesis .
qed

lemma quotient_window:
  assumes "0 < a" "0 < b"
  defines "k \<equiv> int (floorlog 2 a) - int (floorlog 2 b)"
  shows "(2::rat) powi (k - 1) < rat_of_nat a / rat_of_nat b"
    and "rat_of_nat a / rat_of_nat b < 2 powi (k + 1)"
proof -
  define fa where "fa = floorlog 2 a"
  define fb where "fb = floorlog 2 b"
  have ba: "2 ^ (fa - 1) \<le> a" "a < 2 ^ fa"
    using floorlog_bounds[of a 2] assms(1) by (simp_all add: fa_def)
  have bb: "2 ^ (fb - 1) \<le> b" "b < 2 ^ fb"
    using floorlog_bounds[of b 2] assms(2) by (simp_all add: fb_def)
  have fa1: "1 \<le> fa" using ba(2) assms(1) by (cases fa) simp_all
  have fb1: "1 \<le> fb" using bb(2) assms(2) by (cases fb) simp_all
  have ra: "(2::rat) ^ (fa - 1) \<le> rat_of_nat a" "rat_of_nat a < 2 ^ fa"
    using ba by (metis of_nat_le_iff of_nat_numeral of_nat_power, metis of_nat_less_iff of_nat_numeral of_nat_power)
  have rb: "(2::rat) ^ (fb - 1) \<le> rat_of_nat b" "rat_of_nat b < 2 ^ fb"
    using bb by (metis of_nat_le_iff of_nat_numeral of_nat_power, metis of_nat_less_iff of_nat_numeral of_nat_power)
  have bpos: "0 < rat_of_nat b" using assms(2) by simp
  have k: "k = int fa - int fb" by (simp add: k_def fa_def fb_def)
  have e1: "(2::rat) powi (k - 1) = 2 ^ (fa - 1) / 2 ^ fb"
  proof -
    have "k - 1 = int (fa - 1) - int fb" using fa1 k by simp
    then have "(2::rat) powi (k - 1) = 2 powi (int (fa - 1)) / 2 powi (int fb)"
      by (simp only: power_int_diff[of "2::rat", simplified])
    then show ?thesis by (simp only: power_int_of_nat)
  qed
  have e2: "(2::rat) powi (k + 1) = 2 ^ fa / 2 ^ (fb - 1)"
  proof -
    have "k + 1 = int fa - int (fb - 1)" using fb1 k by simp
    then have "(2::rat) powi (k + 1) = 2 powi (int fa) / 2 powi (int (fb - 1))"
      by (simp only: power_int_diff[of "2::rat", simplified])
    then show ?thesis by (simp only: power_int_of_nat)
  qed
  have "(2::rat) ^ (fa - 1) / 2 ^ fb < rat_of_nat a / rat_of_nat b"
  proof -
    have "(2::rat) ^ (fa - 1) / 2 ^ fb \<le> rat_of_nat a / 2 ^ fb"
      by (rule divide_right_mono[OF ra(1)]) simp
    also have "\<dots> < rat_of_nat a / rat_of_nat b"
      by (rule divide_strict_left_mono[OF rb(2)]) (use bpos assms(1) in simp_all)
    finally show ?thesis .
  qed
  then show "(2::rat) powi (k - 1) < rat_of_nat a / rat_of_nat b" by (simp only: e1)
  have "rat_of_nat a / rat_of_nat b < 2 ^ fa / 2 ^ (fb - 1)"
  proof -
    have "rat_of_nat a / rat_of_nat b < 2 ^ fa / rat_of_nat b"
      by (rule divide_strict_right_mono[OF ra(2) bpos])
    also have "\<dots> \<le> 2 ^ fa / 2 ^ (fb - 1)"
      by (rule divide_left_mono[OF rb(1)]) (use bpos in simp_all)
    finally show ?thesis .
  qed
  then show "rat_of_nat a / rat_of_nat b < 2 powi (k + 1)" by (simp only: e2)
qed

lemma exponent_lower:
  fixes x :: rat
  assumes "1 / 2 ^ 1022 \<le> x" "x < 2 powi (e + 1)"
  shows "- 1022 \<le> e"
proof (rule ccontr)
  assume "\<not> - 1022 \<le> e"
  then have "e + 1 \<le> - 1022" by simp
  then have "(2::rat) powi (e + 1) \<le> 2 powi (- 1022)"
    by (rule power_int_increasing) simp
  also have "(2::rat) powi (- 1022) = 1 / 2 ^ 1022"
    by (simp only: power_int_minus_divide power_int_numeral)
  finally show False using assms by linarith
qed

lemma to_double_error:
  assumes "0 < b"
    and lo: "1 / 2 ^ 1022 \<le> rat_of_nat a / rat_of_nat b"
    and hi: "rat_of_nat a / rat_of_nat b < 2 ^ 1023"
  shows "\<exists>m s. to_double sg a b = Num sg m s \<and>
           \<bar>rat_of_nat m * 2 powi s - rat_of_nat a / rat_of_nat b\<bar>
             \<le> (rat_of_nat a / rat_of_nat b) / 2 ^ 53"
proof -
  define x where "x = rat_of_nat a / rat_of_nat b"
  have xpos: "0 < x"
  proof -
    have "(0::rat) < 1 / 2 ^ 1022" by simp
    then show ?thesis using lo unfolding x_def by linarith
  qed
  have anz: "a \<noteq> 0"
  proof
    assume "a = 0"
    then have "x = 0" by (simp add: x_def)
    then show False using xpos by simp
  qed
  then have apos: "0 < a" by simp
  define k where "k = int (floorlog 2 a) - int (floorlog 2 b)"
  define e where "e = (if b * 2 ^ nat k \<le> a * 2 ^ nat (- k) then k else k - 1)"
  define s where "s = max (e - 52) (- 1074)"
  define m where "m = rne (a * 2 ^ nat (- s)) (b * 2 ^ nat s)"
  have td: "to_double sg a b =
              (if m = 0 then Num sg 0 0
               else if 2 ^ 1024 * 2 ^ nat (- s) \<le> m * 2 ^ nat s then Infinity sg
               else Num sg m s)"
    unfolding to_double_def Let_def m_def s_def e_def k_def
    using anz by (simp only: if_False)
  have window: "2 powi e \<le> x \<and> x < 2 powi (e + 1)"
  proof (cases "b * 2 ^ nat k \<le> a * 2 ^ nat (- k)")
    case True
    then have "e = k" by (simp add: e_def)
    moreover have "2 powi k \<le> x"
      using True scaled_compare[OF assms(1), of k a] by (simp add: x_def)
    moreover have "x < 2 powi (k + 1)"
      using quotient_window(2)[OF apos assms(1)] by (simp add: x_def k_def)
    ultimately show ?thesis by simp
  next
    case False
    then have "e = k - 1" by (simp add: e_def)
    moreover have "2 powi (k - 1) < x"
      using quotient_window(1)[OF apos assms(1)] by (simp add: x_def k_def)
    moreover have "x < 2 powi k"
      using False scaled_compare[OF assms(1), of k a] by (simp add: x_def)
    ultimately show ?thesis by simp
  qed
  have "- 1022 \<le> e"
    using exponent_lower[of x e] lo window by (simp add: x_def)
  then have s: "s = e - 52" by (simp add: s_def)
  define P where "P = (2::rat) powi s"
  define Q where "Q = (2::rat) powi (- s)"
  have Ppos: "0 < P" by (simp add: P_def)
  have QP: "Q * P = 1"
    by (simp add: P_def Q_def power_int_minus)
  have Bpos: "0 < b * 2 ^ nat s" using assms(1) by simp
  have "\<bar>rat_of_nat m - x * Q\<bar> \<le> 1 / 2"
    using rne_error[OF Bpos, of "a * 2 ^ nat (- s)"]
    by (simp only: m_def scaled_quotient[OF assms(1)] x_def Q_def)
  then have "\<bar>rat_of_nat m - x * Q\<bar> * P \<le> 1 / 2 * P"
    using Ppos by (simp only: mult_le_cancel_right_pos)
  moreover have "\<bar>rat_of_nat m - x * Q\<bar> * P = \<bar>rat_of_nat m * P - x\<bar>"
  proof -
    have "\<bar>rat_of_nat m - x * Q\<bar> * P = \<bar>(rat_of_nat m - x * Q) * P\<bar>"
      using Ppos by (simp add: abs_mult)
    also have "(rat_of_nat m - x * Q) * P = rat_of_nat m * P - x * (Q * P)"
      by (simp add: algebra_simps)
    finally show ?thesis by (simp add: QP)
  qed
  moreover have "1 / 2 * P \<le> x / 2 ^ 53"
  proof -
    have "P = 2 powi e / 2 powi 52"
      unfolding P_def s by (rule power_int_diff) simp
    then have "1 / 2 * P = 2 powi e / 2 ^ 53" by simp
    also have "\<dots> \<le> x / 2 ^ 53"
      by (rule divide_right_mono) (use window in simp_all)
    finally show ?thesis .
  qed
  ultimately have err: "\<bar>rat_of_nat m * P - x\<bar> \<le> x / 2 ^ 53" by linarith
  have mP: "0 < rat_of_nat m * P" "rat_of_nat m * P < 2 ^ 1024"
  proof -
    have "x / 2 ^ 53 < x" using xpos by simp
    then show "0 < rat_of_nat m * P" using err by linarith
    have "x / 2 ^ 53 < x" using xpos by simp
    then have "rat_of_nat m * P < 2 * x" using err by linarith
    also have "\<dots> < 2 * 2 ^ 1023" using hi by (simp add: x_def)
    finally show "rat_of_nat m * P < 2 ^ 1024" by simp
  qed
  have mnz: "m \<noteq> 0"
  proof
    assume "m = 0"
    then have "rat_of_nat m * P = 0" by simp
    then show False using mP(1) by (simp only: less_irrefl)
  qed
  have noov: "\<not> 2 ^ 1024 * 2 ^ nat (- s) \<le> m * 2 ^ nat s"
  proof
    assume "2 ^ 1024 * 2 ^ nat (- s) \<le> m * 2 ^ nat s"
    then have "2 ^ 1024 * 2 ^ nat (- s) \<le> m * 2 ^ nat (- (- s))" by simp
    moreover have "2 ^ 1024 * 2 ^ nat (- s) \<le> m * 2 ^ nat (- (- s))
                   \<longleftrightarrow> (2::rat) powi (- s) \<le> rat_of_nat m / rat_of_nat (2 ^ 1024)"
      by (rule scaled_compare) simp
    ultimately have "(2::rat) powi (- s) \<le> rat_of_nat m / rat_of_nat (2 ^ 1024)"
      by (rule rev_iffD1)
    then have "Q \<le> rat_of_nat m / 2 ^ 1024" by (simp add: Q_def)
    then have "Q * P \<le> rat_of_nat m / 2 ^ 1024 * P"
      using Ppos by (simp only: mult_le_cancel_right_pos)
    then have "1 \<le> rat_of_nat m * P / 2 ^ 1024" by (simp add: QP)
    then have "2 ^ 1024 \<le> rat_of_nat m * P" by simp
    then show False using mP(2) by linarith
  qed
  have "to_double sg a b = Num sg m s" using td mnz noov by simp
  with err show ?thesis by (auto simp: P_def x_def)
qed

lemma Math_round_floor:
  "Math_round (Num False m e) = Num False (nat \<lfloor>rat_of_nat m * 2 powi e + 1 / 2\<rfloor>) 0"
proof (cases "0 \<le> e")
  case True
  then have "\<exists>n. e = int n" by (intro exI[of _ "nat e"]) simp
  then obtain n where e: "e = int n" ..
  have "\<lfloor>rat_of_nat (m * 2 ^ n) + 1 / 2\<rfloor> = int (m * 2 ^ n)"
    by (rule floor_unique) simp_all
  moreover have "rat_of_nat m * 2 powi e = rat_of_nat (m * 2 ^ n)"
    by (simp add: e)
  ultimately have "nat \<lfloor>rat_of_nat m * 2 powi e + 1 / 2\<rfloor> = m * 2 ^ n"
    by (simp only: nat_int)
  then show ?thesis using True by (simp add: e)
next
  case False
  then have "\<exists>n. e = - int n" by (intro exI[of _ "nat (- e)"]) simp
  then obtain n where e: "e = - int n" ..
  have "rat_of_nat m * 2 powi e + 1 / 2 = rat_of_nat (2 * m + 2 ^ n) / rat_of_nat (2 ^ (n + 1))"
    by (simp add: e power_int_minus field_simps)
  then have "\<lfloor>rat_of_nat m * 2 powi e + 1 / 2\<rfloor> = int ((2 * m + 2 ^ n) div 2 ^ (n + 1))"
    by (simp only: floor_divide_of_nat_eq)
  then have "nat \<lfloor>rat_of_nat m * 2 powi e + 1 / 2\<rfloor> = (2 * m + 2 ^ n) div 2 ^ (n + 1)"
    by (simp only: nat_int)
  then show ?thesis using False by (simp add: e)
qed

lemma count_quotient_range:
  assumes "0 < t" "t < 2 ^ 53" "0 < p" "p < 2 ^ 44"
  shows "1 / 2 ^ 53 \<le> rat_of_nat p / rat_of_nat t"
    and "rat_of_nat p / rat_of_nat t < 2 ^ 44"
proof -
  define P where "P = rat_of_nat p"
  define T where "T = rat_of_nat t"
  have "1 \<le> t" "1 \<le> p" using assms by simp_all
  then have "rat_of_nat 1 \<le> rat_of_nat t" "rat_of_nat 1 \<le> rat_of_nat p"
    by (simp_all only: of_nat_le_iff)
  then have T1: "1 \<le> T" and P1: "1 \<le> P" by (simp_all add: T_def P_def)
  have "rat_of_nat t < rat_of_nat (2 ^ 53)" "rat_of_nat p < rat_of_nat (2 ^ 44)"
    using assms by (simp_all only: of_nat_less_iff)
  then have T2: "T < 2 ^ 53" and P2: "P < 2 ^ 44" by (simp_all add: T_def P_def)
  have Tpos: "0 < T" using T1 by linarith
  have "1 / 2 ^ 53 * T \<le> P" using T2 P1 by simp
  then show "1 / 2 ^ 53 \<le> rat_of_nat p / rat_of_nat t"
    unfolding P_def[symmetric] T_def[symmetric] using Tpos by (simp only: pos_le_divide_eq)
  have "P < 2 ^ 44 * T"
  proof -
    have "(2::rat) ^ 44 \<le> 2 ^ 44 * T" using T1 by simp
    then show ?thesis using P2 by linarith
  qed
  then show "rat_of_nat p / rat_of_nat t < 2 ^ 44"
    unfolding P_def[symmetric] T_def[symmetric] using Tpos by (simp only: pos_divide_less_eq)
qed

lemma product_error:
  assumes "0 < t" "t < 2 ^ 53" "0 < p" "p < 2 ^ 44"
  shows "\<exists>m s. js_mul (js_div (of_count p) (of_count t)) (of_count 100) = Num False m s \<and>
           \<bar>rat_of_nat m * 2 powi s - 100 * rat_of_nat p / rat_of_nat t\<bar>
             \<le> (100 * rat_of_nat p / rat_of_nat t) * (2 / 2 ^ 53 + 1 / 2 ^ 106)"
proof -
  define x where "x = rat_of_nat p / rat_of_nat t"
  have xlo: "1 / 2 ^ 53 \<le> x" and xhi: "x < 2 ^ 44"
    using count_quotient_range[OF assms] by (simp_all only: x_def)
  have x0: "0 < x"
  proof -
    have "(0::rat) < 1 / 2 ^ 53" by simp
    then show ?thesis using xlo by linarith
  qed
  have lo1: "1 / 2 ^ 1022 \<le> rat_of_nat p / rat_of_nat t"
  proof -
    have "(1::rat) / 2 ^ 1022 \<le> 1 / 2 ^ 53" by simp
    then show ?thesis using xlo unfolding x_def by linarith
  qed
  have hi1: "rat_of_nat p / rat_of_nat t < 2 ^ 1023"
  proof -
    have "(2::rat) ^ 44 \<le> 2 ^ 1023" by simp
    then show ?thesis using xhi unfolding x_def by linarith
  qed
  obtain m1 s1 where d: "to_double False p t = Num False m1 s1"
    and e1: "\<bar>rat_of_nat m1 * 2 powi s1 - x\<bar> \<le> x / 2 ^ 53"
    using to_double_error[OF assms(1) lo1 hi1, of False] unfolding x_def by blast
  define v1 where "v1 = rat_of_nat m1 * 2 powi s1"
  have a1: "\<bar>v1 - x\<bar> \<le> x / 2 ^ 53" using e1 by (simp only: v1_def)
  have div: "js_div (of_count p) (of_count t) = Num False m1 s1"
    using assms(1) d by (simp add: of_count_def)
  have mul: "js_mul (Num False m1 s1) (of_count 100)
             = to_double False (m1 * 100 * 2 ^ nat s1) (2 ^ nat (- s1))"
    by (simp add: of_count_def)
  have exact: "rat_of_nat (m1 * 100 * 2 ^ nat s1) / rat_of_nat (2 ^ nat (- s1)) = 100 * v1"
    using scaled_quotient[of 1 "m1 * 100" "- s1"] by (simp add: v1_def)
  have half: "x / 2 ^ 53 \<le> x / 2" using x0 by simp
  have v1lo: "x / 2 \<le> v1" and v1hi: "v1 \<le> x + x / 2 ^ 53" using a1 half by linarith+
  have lo2: "1 / 2 ^ 1022 \<le> 100 * v1"
  proof -
    have "(1::rat) / 2 ^ 1022 \<le> 100 * (1 / 2 ^ 53 / 2)" by simp
    also have "\<dots> \<le> 100 * (x / 2)" using xlo by simp
    also have "\<dots> \<le> 100 * v1" using v1lo by simp
    finally show ?thesis .
  qed
  have hi2: "100 * v1 < 2 ^ 1023"
  proof -
    have "v1 < 2 * 2 ^ 44" using v1hi half xhi x0 by linarith
    then have "100 * v1 < 100 * (2 * 2 ^ 44)" by simp
    also have "\<dots> \<le> (2::rat) ^ 1023" by simp
    finally show ?thesis .
  qed
  have pos2: "(0::nat) < 2 ^ nat (- s1)" by simp
  obtain m2 s2 where d2: "to_double False (m1 * 100 * 2 ^ nat s1) (2 ^ nat (- s1)) = Num False m2 s2"
    and e2: "\<bar>rat_of_nat m2 * 2 powi s2 - 100 * v1\<bar> \<le> (100 * v1) / 2 ^ 53"
    using to_double_error[OF pos2, of "m1 * 100 * 2 ^ nat s1" False] lo2 hi2
    unfolding exact by blast
  define v2 where "v2 = rat_of_nat m2 * 2 powi s2"
  have a2: "\<bar>v2 - 100 * v1\<bar> \<le> (100 * v1) / 2 ^ 53" using e2 by (simp only: v2_def)
  have "\<bar>v2 - 100 * x\<bar> \<le> 100 * x * (2 / 2 ^ 53 + 1 / 2 ^ 106)"
  proof -
    have "\<bar>v2 - 100 * x\<bar> \<le> (100 * v1) / 2 ^ 53 + 100 * (x / 2 ^ 53)"
      using a1 a2 by linarith
    also have "\<dots> \<le> (100 * (x + x / 2 ^ 53)) / 2 ^ 53 + 100 * (x / 2 ^ 53)"
      using v1hi by (simp add: divide_right_mono)
    also have "\<dots> = 100 * x * (2 / 2 ^ 53 + 1 / 2 ^ 106)"
      by (simp add: field_simps)
    finally show ?thesis .
  qed
  moreover have "js_mul (js_div (of_count p) (of_count t)) (of_count 100) = Num False m2 s2"
    by (simp only: div mul d2)
  ultimately show ?thesis unfolding v2_def x_def by auto
qed

section \<open>The progress percentage\<close>

text \<open>
  With both roundings within \<open>2^-53\<close>, the product is closer to the exact percentage
  than half the distance between two multiples of \<open>1 / (2 * total)\<close>, so
  \<^verbatim>\<open>Math.round\<close> can only miss the nearest integer when the exact percentage is
  a tie.
\<close>

lemma floor_scaled:
  fixes y c :: rat
  assumes "0 < c" "of_int z * c \<le> y" "y < (of_int z + 1) * c"
  shows "\<lfloor>y / c\<rfloor> = z"
proof (rule floor_unique)
  show "of_int z \<le> y / c" using assms(1,2) by (simp only: pos_le_divide_eq)
  show "y / c < of_int z + 1" using assms(1,3) by (simp only: pos_divide_less_eq)
qed

lemma percent_rounding:
  fixes v :: rat
  assumes t: "0 < t" and p: "p < 2 ^ 44"
    and v: "\<bar>v - 100 * rat_of_nat p / rat_of_nat t\<bar>
              \<le> (100 * rat_of_nat p / rat_of_nat t) * (2 / 2 ^ 53 + 1 / 2 ^ 106)"
  shows "if 2 * (100 * p mod t) = t
         then nat \<lfloor>v + 1 / 2\<rfloor> = 100 * p div t \<or> nat \<lfloor>v + 1 / 2\<rfloor> = 100 * p div t + 1
         else int (nat \<lfloor>v + 1 / 2\<rfloor>) = round (100 * rat_of_nat p / rat_of_nat t)"
proof -
  define q0 where "q0 = 100 * p div t"
  define r0 where "r0 = 100 * p mod t"
  define T where "T = rat_of_nat t"
  define R where "R = rat_of_nat r0"
  define K where "K = rat_of_nat q0 * T"
  define V where "V = 2 * T * v"
  define P where "P = rat_of_nat p"
  have tpos: "0 < T" and t1: "1 \<le> T" using t by (simp_all add: T_def)
  have T2: "0 < 2 * T" using tpos by simp
  have "100 * p = q0 * t + r0" by (simp add: q0_def r0_def)
  then have "rat_of_nat (100 * p) = rat_of_nat (q0 * t + r0)" by (simp only:)
  then have hp: "100 * P = K + R" by (simp add: K_def R_def T_def P_def)
  have "r0 < t" using t by (simp add: r0_def)
  then have "r0 + 1 \<le> t" by simp
  then have "rat_of_nat (r0 + 1) \<le> rat_of_nat t" by (simp only: of_nat_le_iff)
  then have r1: "R + 1 \<le> T" by (simp add: R_def T_def)
  have r0': "0 \<le> R" by (simp add: R_def)
  have "p + 1 \<le> 2 ^ 44" using p by simp
  then have "rat_of_nat (p + 1) \<le> rat_of_nat (2 ^ 44)" by (simp only: of_nat_le_iff)
  then have pb: "P + 1 \<le> 2 ^ 44" by (simp add: P_def)
  have p0: "0 \<le> P" by (simp add: P_def)
  have E: "100 * rat_of_nat p / rat_of_nat t = 100 * P / T" by (simp add: P_def T_def)
  have err: "\<bar>v - 100 * P / T\<bar> \<le> (100 * P / T) * (2 / 2 ^ 53 + 1 / 2 ^ 106)"
    using v by (simp only: E)
  have "\<bar>v - 100 * P / T\<bar> * (2 * T) \<le> (100 * P / T) * (2 / 2 ^ 53 + 1 / 2 ^ 106) * (2 * T)"
    using err T2 by (simp only: mult_le_cancel_right_pos)
  moreover have "\<bar>v - 100 * P / T\<bar> * (2 * T) = \<bar>V - 200 * P\<bar>"
  proof -
    have "\<bar>v - 100 * P / T\<bar> * (2 * T) = \<bar>(v - 100 * P / T) * (2 * T)\<bar>"
      using T2 by (simp add: abs_mult)
    also have "(v - 100 * P / T) * (2 * T) = V - 200 * P"
      using tpos by (simp add: V_def field_simps)
    finally show ?thesis .
  qed
  moreover have "(100 * P / T) * (2 / 2 ^ 53 + 1 / 2 ^ 106) * (2 * T)
                 = 200 * P * (2 / 2 ^ 53 + 1 / 2 ^ 106)"
    using tpos by (simp add: field_simps)
  moreover have "200 * P * (2 / 2 ^ 53 + 1 / 2 ^ 106) < 1"
    using pb p0 by simp
  ultimately have close: "\<bar>V - 200 * P\<bar> < 1" by linarith
  have lo: "2 * K + 2 * R - 1 < V" and hi: "V < 2 * K + 2 * R + 1"
    using close hp by linarith+
  have vh: "v + 1 / 2 = (V + T) / (2 * T)"
    using tpos by (simp add: V_def field_simps)
  have Eh: "100 * P / T + 1 / 2 = (2 * K + 2 * R + T) / (2 * T)"
    using tpos hp by (simp add: field_simps)
  have Kq: "of_int (int q0) * (2 * T) = 2 * K" by (simp add: K_def)
  have Kq1: "(of_int (int q0) + 1) * (2 * T) = 2 * K + 2 * T" by (simp add: K_def algebra_simps)
  have Kq': "of_int (int (q0 + 1)) * (2 * T) = 2 * K + 2 * T" by (simp add: K_def algebra_simps)
  have Kq1': "(of_int (int (q0 + 1)) + 1) * (2 * T) = 2 * K + 4 * T" by (simp add: K_def algebra_simps)
  consider (below) "2 * r0 < t" | (above) "t < 2 * r0" | (tie) "2 * r0 = t" by linarith
  then show ?thesis
  proof cases
    case below
    then have "2 * r0 + 1 \<le> t" by simp
    then have "rat_of_nat (2 * r0 + 1) \<le> rat_of_nat t" by (simp only: of_nat_le_iff)
    then have b: "2 * R + 1 \<le> T" by (simp add: R_def T_def)
    have "\<lfloor>(V + T) / (2 * T)\<rfloor> = int q0"
    proof (rule floor_scaled[OF T2])
      show "of_int (int q0) * (2 * T) \<le> (V + T)"
        unfolding Kq using lo hi b r0' t1 by linarith
      show "(V + T) < (of_int (int q0) + 1) * (2 * T)"
        unfolding Kq1 using lo hi b r0' t1 by linarith
    qed
    moreover have "\<lfloor>(2 * K + 2 * R + T) / (2 * T)\<rfloor> = int q0"
    proof (rule floor_scaled[OF T2])
      show "of_int (int q0) * (2 * T) \<le> (2 * K + 2 * R + T)"
        unfolding Kq using b r0' t1 by linarith
      show "(2 * K + 2 * R + T) < (of_int (int q0) + 1) * (2 * T)"
        unfolding Kq1 using b r0' t1 by linarith
    qed
    ultimately have "int (nat \<lfloor>v + 1 / 2\<rfloor>) = round (100 * P / T)"
      by (simp only: vh round_def Eh nat_int)
    moreover have "2 * (100 * p mod t) \<noteq> t" using below by (simp add: r0_def)
    ultimately show ?thesis by (simp only: E if_False)
  next
    case above
    then have "t + 1 \<le> 2 * r0" by simp
    then have "rat_of_nat (t + 1) \<le> rat_of_nat (2 * r0)" by (simp only: of_nat_le_iff)
    then have b: "T + 1 \<le> 2 * R" by (simp add: R_def T_def)
    have "\<lfloor>(V + T) / (2 * T)\<rfloor> = int (q0 + 1)"
    proof (rule floor_scaled[OF T2])
      show "of_int (int (q0 + 1)) * (2 * T) \<le> (V + T)"
        unfolding Kq' using lo hi b r1 t1 by linarith
      show "(V + T) < (of_int (int (q0 + 1)) + 1) * (2 * T)"
        unfolding Kq1' using lo hi b r1 t1 by linarith
    qed
    moreover have "\<lfloor>(2 * K + 2 * R + T) / (2 * T)\<rfloor> = int (q0 + 1)"
    proof (rule floor_scaled[OF T2])
      show "of_int (int (q0 + 1)) * (2 * T) \<le> (2 * K + 2 * R + T)"
        unfolding Kq' using b r1 t1 by linarith
      show "(2 * K + 2 * R + T) < (of_int (int (q0 + 1)) + 1) * (2 * T)"
        unfolding Kq1' using b r1 t1 by linarith
    qed
    ultimately have "int (nat \<lfloor>v + 1 / 2\<rfloor>) = round (100 * P / T)"
      by (simp only: vh round_def Eh nat_int)
    moreover have "2 * (100 * p mod t) \<noteq> t" using above by (simp add: r0_def)
    ultimately show ?thesis by (simp only: E if_False)
  next
    case tie
    then have "rat_of_nat (2 * r0) = rat_of_nat t" by (simp only:)
    then have b: "2 * R = T" by (simp add: R_def T_def)
    have "\<lfloor>(V + T) / (2 * T)\<rfloor> = int q0 \<or> \<lfloor>(V + T) / (2 * T)\<rfloor> = int (q0 + 1)"
    proof (cases "V + T < 2 * K + 2 * T")
      case True
      have "\<lfloor>(V + T) / (2 * T)\<rfloor> = int q0"
      proof (rule floor_scaled[OF T2])
        show "of_int (int q0) * (2 * T) \<le> (V + T)"
          unfolding Kq using lo hi b True t1 by linarith
        show "(V + T) < (of_int (int q0) + 1) * (2 * T)"
          unfolding Kq1 using lo hi b True t1 by linarith
      qed
      then show ?thesis ..
    next
      case False
      have "\<lfloor>(V + T) / (2 * T)\<rfloor> = int (q0 + 1)"
      proof (rule floor_scaled[OF T2])
        show "of_int (int (q0 + 1)) * (2 * T) \<le> (V + T)"
          unfolding Kq' using lo hi b False t1 by linarith
        show "(V + T) < (of_int (int (q0 + 1)) + 1) * (2 * T)"
          unfolding Kq1' using lo hi b False t1 by linarith
      qed
      then show ?thesis ..
    qed
    then have "nat \<lfloor>v + 1 / 2\<rfloor> = q0 \<or> nat \<lfloor>v + 1 / 2\<rfloor> = q0 + 1"
      unfolding vh by (metis nat_int)
    moreover have "2 * (100 * p mod t) = t" using tie by (simp add: r0_def)
    ultimately show ?thesis by (simp add: q0_def)
  qed
qed

lemma round_percent:
  assumes "0 < t"
  shows "round (100 * rat_of_nat p / rat_of_nat t) = int ((200 * p + t) div (2 * t))"
proof -
  have "100 * rat_of_nat p / rat_of_nat t + 1 / 2 = rat_of_nat (200 * p + t) / rat_of_nat (2 * t)"
    using assms by (simp add: field_simps)
  then show ?thesis by (simp only: round_def floor_divide_of_nat_eq)
qed

lemma getProgressValue_no_progress:
  "progress st = None \<Longrightarrow> getProgressValue st = of_count 0"
  by (simp add: getProgressValue_def)

lemma getProgressValue_no_total:
  assumes "progress st = Some pr"
    and "total_files pr = Undefined \<or> (\<exists>T. total_files pr = Number T \<and> is_zero T)"
  shows "getProgressValue st = of_count 0"
  using assms by (auto simp: getProgressValue_def with_default_def of_count_def)

lemma getProgressValue_number_total:
  assumes "progress st = Some pr" "total_files pr = Number T" "\<not> is_zero T"
    and "processed_files pr = Undefined \<and> P = of_count 0 \<or> processed_files pr = Number P"
  shows "getProgressValue st = Math_round (js_mul (js_div P T) (of_count 100))"
  using assms by (auto simp: getProgressValue_def with_default_def)

lemma getProgressValue_percent:
  assumes "progress st = Some pr" "total_files pr = Number (of_count t)" "0 < t" "t < 2 ^ 53"
    and "processed_files pr = Undefined \<and> p = 0 \<or> processed_files pr = Number (of_count p)"
    and "p < 2 ^ 44"
  shows "\<exists>k. getProgressValue st = of_count k \<and>
           (if 2 * (100 * p mod t) = t
            then k = 100 * p div t \<or> k = 100 * p div t + 1
            else int k = round (100 * rat_of_nat p / rat_of_nat t))"
proof -
  have nz: "\<not> is_zero (of_count t)" using assms(3) by (simp add: of_count_def)
  have pf: "processed_files pr = Undefined \<and> of_count p = of_count 0
            \<or> processed_files pr = Number (of_count p)"
    using assms(5) by auto
  have val: "getProgressValue st
             = Math_round (js_mul (js_div (of_count p) (of_count t)) (of_count 100))"
    by (rule getProgressValue_number_total[OF assms(1,2) nz pf])
  show ?thesis
  proof (cases "p = 0")
    case True
    have "js_mul (js_div (of_count 0) (of_count t)) (of_count 100) = Num False 0 0"
      using assms(3) by (simp add: of_count_def to_double_def)
    then have "getProgressValue st = of_count 0"
      using val True by (simp add: of_count_def)
    moreover have "2 * (100 * p mod t) \<noteq> t" using True assms(3) by simp
    moreover have "round (100 * rat_of_nat p / rat_of_nat t) = 0" using True by simp
    ultimately show ?thesis by auto
  next
    case False
    then have ppos: "0 < p" by simp
    obtain m s where prod: "js_mul (js_div (of_count p) (of_count t)) (of_count 100) = Num False m s"
      and err: "\<bar>rat_of_nat m * 2 powi s - 100 * rat_of_nat p / rat_of_nat t\<bar>
                  \<le> (100 * rat_of_nat p / rat_of_nat t) * (2 / 2 ^ 53 + 1 / 2 ^ 106)"
      using product_error[OF assms(3,4) ppos assms(6)] by blast
    define k where "k = nat \<lfloor>rat_of_nat m * 2 powi s + 1 / 2\<rfloor>"
    have "getProgressValue st = Math_round (Num False m s)"
      using val prod by (simp only:)
    then have res: "getProgressValue st = of_count k"
      by (simp only: Math_round_floor k_def of_count_def)
    have "if 2 * (100 * p mod t) = t
          then k = 100 * p div t \<or> k = 100 * p div t + 1
          else int k = round (100 * rat_of_nat p / rat_of_nat t)"
      unfolding k_def by (rule percent_rounding[OF assms(3,6) err])
    with res show ?thesis by blast
  qed
qed

text \<open>
  Claim C10, as amended. \<^verbatim>\<open>getProgressValue\<close> returns 0 when \<open>progress\<close> is absent, and
  when \<open>total_files\<close> is absent or is the number 0. When \<open>total_files\<close> is any other
  number and \<open>processed_files\<close> is a number or absent (read as 0), the divisor is not
  zero and the result is \<^verbatim>\<open>Math.round\<close> of the double-precision product
  \<^verbatim>\<open>(processed_files / total_files) * 100\<close>. For natural counts with
  \<open>processed_files < 2^44\<close> and \<open>0 < total_files < 2^53\<close> that result is a natural
  number: the exact percentage rounded to the nearest integer whenever the exact
  percentage is not halfway between two integers, and one of the two neighbouring
  integers when it is. Nothing is stated for a \<open>total_files\<close> that is \<open>null\<close> or another
  value that is not a number.
\<close>

theorem getProgressValue_rounds_percentage:
  "(progress st = None \<longrightarrow> getProgressValue st = of_count 0) \<and>
   (\<forall>pr. progress st = Some pr \<longrightarrow>
      (total_files pr = Undefined \<or> (\<exists>T. total_files pr = Number T \<and> is_zero T) \<longrightarrow>
         getProgressValue st = of_count 0) \<and>
      (\<forall>T P. total_files pr = Number T \<and> \<not> is_zero T \<and>
             (processed_files pr = Undefined \<and> P = of_count 0 \<or> processed_files pr = Number P) \<longrightarrow>
         getProgressValue st = Math_round (js_mul (js_div P T) (of_count 100))) \<and>
      (\<forall>t p. total_files pr = Number (of_count t) \<and> 0 < t \<and> t < 2 ^ 53 \<and>
             (processed_files pr = Undefined \<and> p = 0 \<or> processed_files pr = Number (of_count p)) \<and>
             p < 2 ^ 44 \<longrightarrow>
         (\<exists>k. getProgressValue st = of_count k \<and>
              (if 2 * (100 * p mod t) = t
               then k = 100 * p div t \<or> k = 100 * p div t + 1
               else int k = round (100 * rat_of_nat p / rat_of_nat t)))))"
proof (intro conjI allI impI)
  assume "progress st = None"
  then show "getProgressValue st = of_count 0" by (rule getProgressValue_no_progress)
next
  fix pr
  assume "progress st = Some pr"
    and "total_files pr = Undefined \<or> (\<exists>T. total_files pr = Number T \<and> is_zero T)"
  then show "getProgressValue st = of_count 0" by (rule getProgressValue_no_total)
next
  fix pr T P
  assume pr: "progress st = Some pr"
    and h: "total_files pr = Number T \<and> \<not> is_zero T \<and>
            (processed_files pr = Undefined \<and> P = of_count 0 \<or> processed_files pr = Number P)"
  note h1 = h[THEN conjunct1]
  note h2 = h[THEN conjunct2, THEN conjunct1]
  note h3 = h[THEN conjunct2, THEN conjunct2]
  show "getProgressValue st = Math_round (js_mul (js_div P T) (of_count 100))"
    by (rule getProgressValue_number_total[OF pr h1 h2 h3])
next
  fix pr t p
  assume pr: "progress st = Some pr"
    and h: "total_files pr = Number (of_count t) \<and> 0 < t \<and> t < 2 ^ 53 \<and>
            (processed_files pr = Undefined \<and> p = 0 \<or> processed_files pr = Number (of_count p)) \<and>
            p < 2 ^ 44"
  note h1 = h[THEN conjunct1]
  note h2 = h[THEN conjunct2, THEN conjunct1]
  note h3 = h[THEN conjunct2, THEN conjunct2, THEN conjunct1]
  note h4 = h[THEN conjunct2, THEN conjunct2, THEN conjunct2, THEN conjunct1]
  note h5 = h[THEN conjunct2, THEN conjunct2, THEN conjunct2, THEN conjunct2]
  show "\<exists>k. getProgressValue st = of_count k \<and>
              (if 2 * (100 * p mod t) = t
               then k = 100 * p div t \<or> k = 100 * p div t + 1
               else int k = round (100 * rat_of_nat p / rat_of_nat t))"
    by (rule getProgressValue_percent[OF pr h1 h2 h3 h4 h5])
qed

text \<open>
  The theorem at five status objects: no \<open>progress\<close>; no \<open>total_files\<close>; \<open>-1\<close> of 8,
  where the product is \<open>-12.5\<close> and \<^verbatim>\<open>Math.round\<close> gives \<open>-12\<close>; 1 of 3 files, where
  the exact percentage is no tie and the result is 33; and 1 of 8 files, where it is
  the tie 12.5 and the result is 12 or 13.
\<close>

theorem getProgressValue_rounds_percentage_witness:
  "getProgressValue \<lparr>status = INDEXING, message = ''Indexing in progress...'', progress = None\<rparr>
     = of_count 0 \<and>
   getProgressValue
     \<lparr>status = INDEXING, message = ''Indexing in progress...'',
      progress = Some \<lparr>step = Some ''scanning_files'', processed_files = Number (of_count 2),
                       total_files = Undefined, processed_chunks = Undefined,
                       total_chunks = Undefined\<rparr>\<rparr>
     = of_count 0 \<and>
   getProgressValue
     \<lparr>status = INDEXING, message = ''Indexing in progress...'',
      progress = Some \<lparr>step = Some ''processing_files'', processed_files = Number (Num True 1 0),
                       total_files = Number (of_count 8), processed_chunks = Undefined,
                       total_chunks = Undefined\<rparr>\<rparr>
     = Num True 12 0 \<and>
   getProgressValue
     \<lparr>status = INDEXING, message = ''Indexing in progress...'',
      progress = Some \<lparr>step = Some ''processing_files'', processed_files = Number (of_count 1),
                       total_files = Number (of_count 3), processed_chunks = Undefined,
                       total_chunks = Undefined\<rparr>\<rparr>
     = of_count 33 \<and>
   (getProgressValue
     \<lparr>status = INDEXING, message = ''Indexing in progress...'',
      progress = Some \<lparr>step = Some ''processing_files'', processed_files = Number (of_count 1),
                       total_files = Number (of_count 8), processed_chunks = Undefined,
                       total_chunks = Undefined\<rparr>\<rparr>
     = of_count 12 \<or>
    getProgressValue
     \<lparr>status = INDEXING, message = ''Indexing in progress...'',
      progress = Some \<lparr>step = Some ''processing_files'', processed_files = Number (of_count 1),
                       total_files = Number (of_count 8), processed_chunks = Undefined,
                       total_chunks = Undefined\<rparr>\<rparr>
     = of_count 13)"
proof -
  let ?st0 = "\<lparr>status = INDEXING, message = ''Indexing in progress...'', progress = None\<rparr>"
  have n0: "progress ?st0 = None" by simp
  note first = getProgressValue_rounds_percentage[of ?st0, THEN conjunct1, THEN mp, OF n0]

  let ?pr1 = "\<lparr>step = Some ''scanning_files'', processed_files = Number (of_count 2),
               total_files = Undefined, processed_chunks = Undefined, total_chunks = Undefined\<rparr>"
  let ?st1 = "\<lparr>status = INDEXING, message = ''Indexing in progress...'', progress = Some ?pr1\<rparr>"
  have p1: "progress ?st1 = Some ?pr1" by simp
  have t1: "total_files ?pr1 = Undefined \<or> (\<exists>T. total_files ?pr1 = Number T \<and> is_zero T)"
    by simp
  note second = getProgressValue_rounds_percentage[of ?st1, THEN conjunct2, THEN spec, of ?pr1,
      THEN mp, OF p1, THEN conjunct1, THEN mp, OF t1]

  let ?pr2 = "\<lparr>step = Some ''processing_files'', processed_files = Number (Num True 1 0),
               total_files = Number (of_count 8), processed_chunks = Undefined,
               total_chunks = Undefined\<rparr>"
  let ?st2 = "\<lparr>status = INDEXING, message = ''Indexing in progress...'', progress = Some ?pr2\<rparr>"
  have p2: "progress ?st2 = Some ?pr2" by simp
  have t2: "total_files ?pr2 = Number (of_count 8) \<and> \<not> is_zero (of_count 8) \<and>
            (processed_files ?pr2 = Undefined \<and> Num True 1 0 = of_count 0
             \<or> processed_files ?pr2 = Number (Num True 1 0))"
    by (simp add: of_count_def)
  note expr = getProgressValue_rounds_percentage[of ?st2, THEN conjunct2, THEN spec, of ?pr2,
      THEN mp, OF p2, THEN conjunct2, THEN conjunct1, THEN spec, THEN spec,
      of "of_count 8" "Num True 1 0", THEN mp, OF t2]
  have "Math_round (js_mul (js_div (Num True 1 0) (of_count 8)) (of_count 100)) = Num True 12 0"
    by (simp add: of_count_def to_double_def rne_def compute_floorlog Let_def)
  with expr have third: "getProgressValue ?st2 = Num True 12 0" by (simp only:)

  let ?pr3 = "\<lparr>step = Some ''processing_files'', processed_files = Number (of_count 1),
               total_files = Number (of_count 3), processed_chunks = Undefined,
               total_chunks = Undefined\<rparr>"
  let ?st3 = "\<lparr>status = INDEXING, message = ''Indexing in progress...'', progress = Some ?pr3\<rparr>"
  have p3: "progress ?st3 = Some ?pr3" by simp
  have t3: "total_files ?pr3 = Number (of_count 3) \<and> 0 < (3::nat) \<and> (3::nat) < 2 ^ 53 \<and>
            (processed_files ?pr3 = Undefined \<and> (1::nat) = 0
             \<or> processed_files ?pr3 = Number (of_count 1)) \<and> (1::nat) < 2 ^ 44"
    by simp
  note T3 = getProgressValue_rounds_percentage[of ?st3, THEN conjunct2, THEN spec, of ?pr3,
      THEN mp, OF p3, THEN conjunct2, THEN conjunct2, THEN spec, THEN spec, of 3 1,
      THEN mp, OF t3]
  have notie: "2 * (100 * 1 mod 3) \<noteq> (3::nat)" by simp
  have r: "round (100 * rat_of_nat 1 / rat_of_nat 3) = 33"
    using round_percent[of 3 1] by simp
  from T3 obtain k where k: "getProgressValue ?st3 = of_count k"
    and c: "if 2 * (100 * 1 mod 3) = (3::nat)
            then k = 100 * 1 div 3 \<or> k = 100 * 1 div 3 + 1
            else int k = round (100 * rat_of_nat 1 / rat_of_nat 3)"
    by (elim exE conjE)
  from c notie r have "int k = 33" by (simp only: if_False)
  then have "k = 33" by simp
  with k have fourth: "getProgressValue ?st3 = of_count 33" by (simp only:)

  let ?pr4 = "\<lparr>step = Some ''processing_files'', processed_files = Number (of_count 1),
               total_files = Number (of_count 8), processed_chunks = Undefined,
               total_chunks = Undefined\<rparr>"
  let ?st4 = "\<lparr>status = INDEXING, message = ''Indexing in progress...'', progress = Some ?pr4\<rparr>"
  have p4: "progress ?st4 = Some ?pr4" by simp
  have t4: "total_files ?pr4 = Number (of_count 8) \<and> 0 < (8::nat) \<and> (8::nat) < 2 ^ 53 \<and>
            (processed_files ?pr4 = Undefined \<and> (1::nat) = 0
             \<or> processed_files ?pr4 = Number (of_count 1)) \<and> (1::nat) < 2 ^ 44"
    by simp
  note T4 = getProgressValue_rounds_percentage[of ?st4, THEN conjunct2, THEN spec, of ?pr4,
      THEN mp, OF p4, THEN conjunct2, THEN conjunct2, THEN spec, THEN spec, of 8 1,
      THEN mp, OF t4]
  have tie: "2 * (100 * 1 mod 8) = (8::nat)" by simp
  from T4 obtain k' where k': "getProgressValue ?st4 = of_count k'"
    and c': "if 2 * (100 * 1 mod 8) = (8::nat)
             then k' = 100 * 1 div 8 \<or> k' = 100 * 1 div 8 + 1
             else int k' = round (100 * rat_of_nat 1 / rat_of_nat 8)"
    by (elim exE conjE)
  from c' tie have "k' = 100 * 1 div 8 \<or> k' = 100 * 1 div 8 + 1" by (simp only: if_True)
  then have "k' = 12 \<or> k' = 13" by simp
  with k' have fifth: "getProgressValue ?st4 = of_count 12 \<or> getProgressValue ?st4 = of_count 13"
    by auto
  from first second third fourth fifth show ?thesis by (intro conjI)
qed

text \<open>
  Claim C10 as stated fails at 23 of 40 files: the exact percentage is 57.5, which
  rounds to 58, but the quotient \<open>23 / 40\<close> is rounded down to a double, its product
  with 100 is the double just below 57.5, and \<^verbatim>\<open>Math.round\<close> returns 57. It also
  fails at 5 files of a \<open>total_files\<close> that is \<open>null\<close>: the destructuring default
  replaces only \<^verbatim>\<open>undefined\<close> and \<^verbatim>\<open>null === 0\<close> is false, so the code divides by
  \<open>null\<close>, which converts to 0, and returns \<open>Infinity\<close>.
\<close>

theorem getProgressValue_tie_counterexample:
  "getProgressValue
     \<lparr>status = INDEXING, message = ''Indexing in progress...'',
      progress = Some \<lparr>step = Some ''processing_files'', processed_files = Number (of_count 23),
                       total_files = Number (of_count 40), processed_chunks = Undefined,
                       total_chunks = Undefined\<rparr>\<rparr>
   = of_count 57 \<and> round (100 * rat_of_nat 23 / rat_of_nat 40) = 58 \<and>
   getProgressValue
     \<lparr>status = INDEXING, message = ''Indexing in progress...'',
      progress = Some \<lparr>step = Some ''processing_files'', processed_files = Number (of_count 5),
                       total_files = Null, processed_chunks = Undefined,
                       total_chunks = Undefined\<rparr>\<rparr>
   = Infinity False"
  using round_percent[of 40 23]
  by (simp add: getProgressValue_def with_default_def of_count_def to_double_def rne_def
      compute_floorlog Let_def)

section \<open>Retrieval: threshold, bound and order\<close>

lemma rank_key_le: "rank_key a \<le> rank_key b \<longleftrightarrow> ranks_before a b"
  by (auto simp: rank_key_def ranks_before_def less_eq_prod_def less_prod_def)

lemma sorted_rank_key: "sorted (map rank_key rs) \<Longrightarrow> sorted_wrt ranks_before rs"
  by (induction rs) (auto simp: rank_key_le)

lemma sorted_wrt_take: "sorted_wrt P xs \<Longrightarrow> sorted_wrt P (take n xs)"
  by (metis append_take_drop_id sorted_wrt_append)

text \<open>
  Claim C3. For every ready session and every question for which the Embedding Gateway
  and the Vector Index answer, \<open>retrieve\<close> returns a list; every result in it was
  returned by the index and has a similarity score of at least
  \<open>similarityThreshold\<close>; the list has at most \<open>maxContextChunks\<close> results; and it is
  ordered by descending similarity, ties broken by file path and then \<open>line_start\<close>.
\<close>

theorem retrieve_filtered_bounded_ordered:
  assumes "registry sessionId = Some sess" "session_status sess = READY"
    and "embedText question = Inr v" "queryIndex sessionId v = Inr found"
  shows "\<exists>rs. retrieve registry embedText queryIndex sessionId question maxContextChunks similarityThreshold = Inr rs
           \<and> (\<forall>r \<in> set rs. similarityThreshold \<le> snd r)
           \<and> set rs \<subseteq> set found
           \<and> length rs \<le> maxContextChunks
           \<and> sorted_wrt ranks_before rs"
proof -
  define kept where "kept = filter (\<lambda>r. similarityThreshold \<le> snd r) found"
  define rs where "rs = take maxContextChunks (sort_key rank_key kept)"
  have ret: "retrieve registry embedText queryIndex sessionId question maxContextChunks similarityThreshold = Inr rs"
    using assms by (simp add: retrieve_def rs_def kept_def)
  have sub: "set rs \<subseteq> set kept"
    unfolding rs_def using set_take_subset[of maxContextChunks "sort_key rank_key kept"] by simp
  have thr: "\<forall>r \<in> set rs. similarityThreshold \<le> snd r"
    using sub by (auto simp: kept_def)
  have fnd: "set rs \<subseteq> set found" using sub by (auto simp: kept_def)
  have len: "length rs \<le> maxContextChunks" by (simp add: rs_def)
  have "sorted (map rank_key (sort_key rank_key kept))" by (rule sorted_sort_key)
  then have "sorted_wrt ranks_before (sort_key rank_key kept)" by (rule sorted_rank_key)
  then have ord: "sorted_wrt ranks_before rs" unfolding rs_def by (rule sorted_wrt_take)
  from ret thr fnd len ord show ?thesis by blast
qed
text \<open>
  The theorem on a ready session whose index returns three chunks, one of them below
  the threshold 0.15 and two tied at 0.9.
\<close>

theorem retrieve_filtered_bounded_ordered_witness:
  "\<exists>rs. retrieve [''s1'' \<mapsto> \<lparr>repo_locator = ''r'', session_status = READY, error_message = None\<rparr>]
     (\<lambda>q. Inr (0::nat))
     (\<lambda>sid v. Inr [(\<lparr>file_path = ''b.py'', line_start = 1, line_end = 40, snippet = ''x''\<rparr>, 9/10),
                    (\<lparr>file_path = ''a.py'', line_start = 41, line_end = 80, snippet = ''y''\<rparr>, 1/10),
                    (\<lparr>file_path = ''a.py'', line_start = 1, line_end = 40, snippet = ''z''\<rparr>, 9/10)])
     ''s1'' ''how?'' 3 (3/20) = Inr rs
     \<and> (\<forall>r \<in> set rs. 3/20 \<le> snd r) \<and> length rs \<le> 3 \<and> sorted_wrt ranks_before rs"
proof -
  let ?sess = "\<lparr>repo_locator = ''r'', session_status = READY, error_message = None\<rparr>"
  let ?found = "[(\<lparr>file_path = ''b.py'', line_start = 1, line_end = 40, snippet = ''x''\<rparr>, 9/10),
                 (\<lparr>file_path = ''a.py'', line_start = 41, line_end = 80, snippet = ''y''\<rparr>, 1/10),
                 (\<lparr>file_path = ''a.py'', line_start = 1, line_end = 40, snippet = ''z''\<rparr>, 9/10 :: rat)]"
  let ?reg = "[''s1'' \<mapsto> ?sess]"
  have "\<exists>rs. retrieve ?reg (\<lambda>q. Inr (0::nat)) (\<lambda>sid v. Inr ?found) ''s1'' ''how?'' 3 (3/20) = Inr rs
          \<and> (\<forall>r \<in> set rs. 3/20 \<le> snd r) \<and> set rs \<subseteq> set ?found
          \<and> length rs \<le> 3 \<and> sorted_wrt ranks_before rs"
    by (rule retrieve_filtered_bounded_ordered[where sess = ?sess and v = 0]) simp_all
  then obtain rs where
    "retrieve ?reg (\<lambda>q. Inr (0::nat)) (\<lambda>sid v. Inr ?found) ''s1'' ''how?'' 3 (3/20) = Inr rs
       \<and> (\<forall>r \<in> set rs. 3/20 \<le> snd r) \<and> set rs \<subseteq> set ?found
       \<and> length rs \<le> 3 \<and> sorted_wrt ranks_before rs" ..
  then have "retrieve ?reg (\<lambda>q. Inr (0::nat)) (\<lambda>sid v. Inr ?found) ''s1'' ''how?'' 3 (3/20) = Inr rs
       \<and> (\<forall>r \<in> set rs. 3/20 \<le> snd r) \<and> length rs \<le> 3 \<and> sorted_wrt ranks_before rs"
    by (elim conjE) (intro conjI)
  then show ?thesis ..
qed

end
